theory Spec2Isabelle
  imports Main
begin

section \<open>Python strings\<close>

text \<open>
  A Python \<open>str\<close> is modelled as a HOL \<open>string\<close>, one \<open>char\<close> per character.
  The operations below are the ones the scripts call; the separator and the literals
  they are called with are ASCII.
\<close>

definition startswith :: "string \<Rightarrow> string \<Rightarrow> bool" where
  "startswith s p = (take (length p) s = p)"

definition endswith :: "string \<Rightarrow> string \<Rightarrow> bool" where
  "endswith s p = (length p \<le> length s \<and> drop (length s - length p) s = p)"

text \<open>\<open>s.rstrip(c)\<close> for a one-character argument: drop every trailing \<open>c\<close>.\<close>

definition rstrip :: "char \<Rightarrow> string \<Rightarrow> string" where
  "rstrip c s = rev (dropWhile (\<lambda>x. x = c) (rev s))"

text \<open>\<open>s.split(sep)\<close> for a one-character separator: never the empty list.\<close>

fun str_split :: "char \<Rightarrow> string \<Rightarrow> string list" where
  "str_split sep [] = [[]]"
| "str_split sep (c # cs) =
     (if c = sep then [] # str_split sep cs
      else (case str_split sep cs of
              [] \<Rightarrow> [[c]]
            | w # ws \<Rightarrow> (c # w) # ws))"

text \<open>\<open>v in s\<close> on two strings: \<open>v\<close> occurs in \<open>s\<close> as a contiguous substring.\<close>

fun str_in :: "string \<Rightarrow> string \<Rightarrow> bool" where
  "str_in v [] = (v = [])"
| "str_in v (c # cs) = (startswith (c # cs) v \<or> str_in v cs)"

section \<open>Errors, JSON values and dictionaries\<close>

datatype py_error =
    KeyError
  | TypeError
  | AttributeError
  | IndexError
  | ZeroDivisionError
  | LoadError
  | RequestError

text \<open>
  What \<open>json.load\<close> returns. Numbers are carried through and never inspected;
  only integers are represented.
\<close>

datatype json =
    JNull
  | JBool bool
  | JNum int
  | JStr string
  | JArr "json list"
  | JObj "(string \<times> json) list"

text \<open>
  A Python \<open>dict\<close> keeps insertion order: an association list with distinct keys.
  Assigning to an existing key replaces the value in place, assigning to a new key
  appends the entry.
\<close>

type_synonym 'v pydict = "(string \<times> 'v) list"

fun dict_set :: "'v pydict \<Rightarrow> string \<Rightarrow> 'v \<Rightarrow> 'v pydict" where
  "dict_set [] k v = [(k, v)]"
| "dict_set ((k', v') # d) k v =
     (if k' = k then (k, v) # d else (k', v') # dict_set d k v)"

text \<open>\<open>d[k]\<close>: \<open>KeyError\<close> when the key is absent.\<close>

definition dict_get :: "'v pydict \<Rightarrow> string \<Rightarrow> py_error + 'v" where
  "dict_get d k = (case map_of d k of None \<Rightarrow> Inl KeyError | Some v \<Rightarrow> Inr v)"

text \<open>
  \<open>d[k].method(...)\<close> for a string method (\<open>rstrip\<close>, \<open>startswith\<close>): the value
  has to be a \<open>str\<close>, any other JSON value has no such attribute.
\<close>

definition get_str :: "json pydict \<Rightarrow> string \<Rightarrow> py_error + string" where
  "get_str d k =
     (case dict_get d k of
        Inl e \<Rightarrow> Inl e
      | Inr (JStr s) \<Rightarrow> Inr s
      | Inr _ \<Rightarrow> Inl AttributeError)"

text \<open>\<open>{k: data[k] for k in ks}\<close>: the first absent key raises \<open>KeyError\<close>.\<close>

fun restrict_keys :: "json pydict \<Rightarrow> string list \<Rightarrow> py_error + json pydict" where
  "restrict_keys d [] = Inr []"
| "restrict_keys d (k # ks) =
     (case dict_get d k of
        Inl e \<Rightarrow> Inl e
      | Inr v \<Rightarrow>
          (case restrict_keys d ks of
             Inl e \<Rightarrow> Inl e
           | Inr r \<Rightarrow> Inr ((k, v) # r)))"

text \<open>\<open>xs[-1]\<close>: \<open>IndexError\<close> on the empty list.\<close>

definition py_last :: "'a list \<Rightarrow> py_error + 'a" where
  "py_last xs = (case rev xs of [] \<Rightarrow> Inl IndexError | x # _ \<Rightarrow> Inr x)"

text \<open>
  \<open>s.splitlines()\<close>: the line boundaries among ASCII characters are line feed,
  carriage return (with a following line feed as one boundary), vertical tab, form
  feed and the file, group and record separators. A trailing boundary opens no
  further line.
\<close>

definition is_linebreak :: "char \<Rightarrow> bool" where
  "is_linebreak c =
     (c \<in> set [CHR 0x0A, CHR 0x0D, CHR 0x0B, CHR 0x0C, CHR 0x1C, CHR 0x1D, CHR 0x1E])"

fun splitlines_from :: "string \<Rightarrow> string \<Rightarrow> string list" where
  "splitlines_from cur [] = (if cur = [] then [] else [cur])"
| "splitlines_from cur [c] = (if is_linebreak c then [cur] else [cur @ [c]])"
| "splitlines_from cur (c # d # cs) =
     (if c = CHR 0x0D \<and> d = CHR 0x0A then cur # splitlines_from [] cs
      else if is_linebreak c then cur # splitlines_from [] (d # cs)
      else splitlines_from (cur @ [c]) (d # cs))"

definition splitlines :: "string \<Rightarrow> string list" where
  "splitlines s = splitlines_from [] s"

section \<open>URLProcessor\<close>

text \<open>
  The identifier mapping \<open>self.mapping\<close>: page url to page id, in insertion order.
  A page id is what \<open>tag.get\<close> returned: a string, or \<open>None\<close> when the attribute
  is absent.
\<close>

type_synonym id_mapping = "string option pydict"

record url_processor =
  base_url :: string
  mapping :: id_mapping

definition init_processor :: "string \<Rightarrow> url_processor" where
  "init_processor b = \<lparr>base_url = b, mapping = []\<rparr>"

subsection \<open>extract_href_urls\<close>

definition dquote :: char where
  "dquote = CHR 0x22"

definition href_open :: string where
  "href_open = ''href='' @ [dquote]"

text \<open>
  \<open>re.findall\<close> for the pattern \<open>href=DQ([^DQ]*)DQ\<close> (DQ the double quote): the
  non-overlapping matches from left to right, each reported by its group. At a
  position where the text starts with \<open>href=DQ\<close> the group runs to the next double
  quote; with no double quote left there is no match at that position. The search
  goes on behind the closing quote of a match, and one character further otherwise.
\<close>

function findall_href :: "string \<Rightarrow> string list" where
  "findall_href [] = []"
| "findall_href (c # cs) =
     (if startswith (c # cs) href_open then
        (case dropWhile (\<lambda>x. x \<noteq> dquote) (drop (length href_open) (c # cs)) of
           [] \<Rightarrow> findall_href cs
         | q # after \<Rightarrow>
             takeWhile (\<lambda>x. x \<noteq> dquote) (drop (length href_open) (c # cs))
               # findall_href after)
      else findall_href cs)"
  by pat_completeness auto
termination
proof (relation "measure length")
  fix c :: char and cs q after
  assume "dropWhile (\<lambda>x. x \<noteq> dquote) (drop (length href_open) (c # cs)) = q # after"
  then have "Suc (length after) = length (dropWhile (\<lambda>x. x \<noteq> dquote) (drop (length href_open) (c # cs)))"
    by simp
  also have "\<dots> \<le> length (drop (length href_open) (c # cs))"
    by (rule length_dropWhile_le)
  also have "\<dots> \<le> length (c # cs)"
    by simp
  finally show "(after, c # cs) \<in> measure length"
    by simp
qed simp_all

declare findall_href.simps [simp del]

definition extract_href_urls :: "url_processor \<Rightarrow> string \<Rightarrow> string \<Rightarrow> string list" where
  "extract_href_urls self text url_subdir =
     map (\<lambda>url. base_url self @ url)
       (filter (\<lambda>url. startswith url (''/'' @ url_subdir @ ''/'')) (findall_href text))"

subsection \<open>find_links_in_html\<close>

text \<open>
  \<open>save_urls_to_file\<close> writes every url followed by a line feed; the script reads
  the file back with \<open>read().splitlines()\<close>.
\<close>

definition save_urls_to_file :: "string list \<Rightarrow> string" where
  "save_urls_to_file urls = concat (map (\<lambda>url. url @ [CHR 0x0A]) urls)"

definition find_links_in_html :: "url_processor \<Rightarrow> string \<Rightarrow> string \<Rightarrow> string" where
  "find_links_in_html self text url_subdir =
     save_urls_to_file (extract_href_urls self text url_subdir)"

subsection \<open>create_page_id_mapping\<close>

text \<open>
  The remote side is a parameter: \<open>fetch url\<close> is what \<open>requests.get\<close>, the parser
  and \<open>soup.find("html", class_="no-js")\<close> yield for the url: an error raised on
  the way, \<open>None\<close> when no such element exists, or the attributes of the element
  found. \<open>tag.get\<close> on \<open>None\<close> raises \<open>AttributeError\<close>; on an element it is the
  attribute's value or \<open>None\<close>. The mapping is updated in place, so what was
  inserted before an error stays.
\<close>

type_synonym fetcher = "string \<Rightarrow> py_error + string pydict option"

fun create_page_id_mapping ::
  "fetcher \<Rightarrow> string list \<Rightarrow> url_processor \<Rightarrow> py_error option \<times> url_processor" where
  "create_page_id_mapping fetch [] self = (None, self)"
| "create_page_id_mapping fetch (url # urls) self =
     (case fetch url of
        Inl e \<Rightarrow> (Some e, self)
      | Inr None \<Rightarrow> (Some AttributeError, self)
      | Inr (Some attrs) \<Rightarrow>
          create_page_id_mapping fetch urls
            (self\<lparr>mapping := dict_set (mapping self) url (map_of attrs ''data-vp-page-id'')\<rparr>))"

subsection \<open>clean_export_data\<close>

text \<open>
  A file of the input folder: its name and what \<open>open\<close> and \<open>json.load\<close> make of
  it (\<open>Unreadable\<close> when either raises). The folder is the list \<open>os.listdir\<close> walks.
\<close>

datatype file_content = Parsed json | Unreadable

type_synonym folder = "(string \<times> file_content) list"

record clean_state =
  output_folder :: "string \<rightharpoonup> json pydict"
  good_mappings :: "json list"
  failed_mappings :: "json list"

definition current_page_id :: "string \<Rightarrow> py_error + string" where
  "current_page_id url = py_last (str_split CHR ''/'' (rstrip CHR ''/'' url))"

text \<open>
  The inner \<open>for\<close> loop: the key of the first entry whose value occurs in the url.
  \<open>value in url\<close> raises \<open>TypeError\<close> when the value is \<open>None\<close>.
\<close>

fun scan_mapping :: "id_mapping \<Rightarrow> string \<Rightarrow> py_error + string option" where
  "scan_mapping [] url = Inr None"
| "scan_mapping ((key, val) # rest) url =
     (case val of
        None \<Rightarrow> Inl TypeError
      | Some v \<Rightarrow> if str_in v url then Inr (Some key) else scan_mapping rest url)"

definition rewrite_url :: "id_mapping \<Rightarrow> json pydict \<Rightarrow> string \<Rightarrow> py_error + json pydict" where
  "rewrite_url m data url =
     (case scan_mapping m url of
        Inl e \<Rightarrow> Inl e
      | Inr None \<Rightarrow> Inr data
      | Inr (Some key) \<Rightarrow>
          Inr (dict_set (dict_set data ''internal_url'' (JStr url)) ''url'' (JStr key)))"

text \<open>The title test, the restriction to four fields, the write and the append.\<close>

definition emit_record :: "string \<Rightarrow> json pydict \<Rightarrow> clean_state \<Rightarrow> py_error + clean_state" where
  "emit_record filename data st =
     (case get_str data ''title'' of
        Inl e \<Rightarrow> Inl e
      | Inr title \<Rightarrow>
          if startswith title ''Forward to'' then Inr st
          else
            (case restrict_keys data [''title'', ''internal_url'', ''url'', ''paragraphs''] of
               Inl e \<Rightarrow> Inl e
             | Inr cleaned \<Rightarrow>
                 (case dict_get cleaned ''url'' of
                    Inl e \<Rightarrow> Inl e
                  | Inr u \<Rightarrow>
                      Inr (st\<lparr>output_folder := (output_folder st)(filename \<mapsto> cleaned),
                              good_mappings := good_mappings st @ [u]\<rparr>))))"

text \<open>
  One loaded record. Subscripting anything but a \<open>dict\<close> with \<open>"url"\<close> raises
  \<open>TypeError\<close>.
\<close>

definition process_record :: "id_mapping \<Rightarrow> string \<Rightarrow> json \<Rightarrow> clean_state \<Rightarrow> py_error + clean_state" where
  "process_record m filename j st =
     (case j of
        JObj data \<Rightarrow>
          (case get_str data ''url'' of
             Inl e \<Rightarrow> Inl e
           | Inr url \<Rightarrow>
               (case current_page_id url of
                  Inl e \<Rightarrow> Inl e
                | Inr pid \<Rightarrow>
                    if list_ex (\<lambda>page_id. page_id = Some pid) (map snd m) then
                      (case rewrite_url m data url of
                         Inl e \<Rightarrow> Inl e
                       | Inr data' \<Rightarrow> emit_record filename data' st)
                    else Inr (st\<lparr>failed_mappings := failed_mappings st @ [JStr url]\<rparr>)))
      | _ \<Rightarrow> Inl TypeError)"

text \<open>One pass of the outer loop: a name not ending in \<open>.json\<close> is skipped.\<close>

definition process_file :: "id_mapping \<Rightarrow> string \<times> file_content \<Rightarrow> clean_state \<Rightarrow> py_error + clean_state" where
  "process_file m f st =
     (if \<not> endswith (fst f) ''.json'' then Inr st
      else
        (case snd f of
           Unreadable \<Rightarrow> Inl LoadError
         | Parsed j \<Rightarrow> process_record m (fst f) j st))"

text \<open>
  The outer loop. An exception ends it; the state reached so far (the files
  already written) stays as it is.
\<close>

fun process_files :: "id_mapping \<Rightarrow> folder \<Rightarrow> clean_state \<Rightarrow> py_error option \<times> clean_state" where
  "process_files m [] st = (None, st)"
| "process_files m (f # fs) st =
     (case process_file m f st of
        Inl e \<Rightarrow> (Some e, st)
      | Inr st' \<Rightarrow> process_files m fs st')"

text \<open>
  The report: the success ratio as numerator and denominator (the division itself
  is a float division, and raises on a zero denominator), and up to five samples of
  each list.
\<close>

record report =
  succeeded :: nat
  total :: nat
  sample_good :: "json list"
  sample_failed :: "json list"

definition make_report :: "clean_state \<Rightarrow> py_error + report" where
  "make_report st =
     (if length (good_mappings st @ failed_mappings st) = 0 then Inl ZeroDivisionError
      else Inr \<lparr>succeeded = length (good_mappings st),
                total = length (good_mappings st @ failed_mappings st),
                sample_good = take 5 (good_mappings st),
                sample_failed = take 5 (failed_mappings st)\<rparr>)"

definition empty_state :: clean_state where
  "empty_state = \<lparr>output_folder = Map.empty, good_mappings = [], failed_mappings = []\<rparr>"

text \<open>
  The output folder is removed and created anew, the files are processed, the report
  is printed. The result is the report or the exception raised, and the state at
  that point.
\<close>

definition clean_export_data :: "url_processor \<Rightarrow> folder \<Rightarrow> (py_error + report) \<times> clean_state" where
  "clean_export_data self input_folder =
     (case process_files (mapping self) input_folder empty_state of
        (Some e, st) \<Rightarrow> (Inl e, st)
      | (None, st) \<Rightarrow> (make_report st, st))"

subsection \<open>The script\<close>

text \<open>
  One space: the text of its raw page dump, its path prefix and the files of its
  export folder.
\<close>

record space_input =
  space_html :: string
  space_subdir :: string
  space_export :: folder

definition load_urls :: "url_processor \<Rightarrow> space_input \<Rightarrow> string list" where
  "load_urls self sp = splitlines (find_links_in_html self (space_html sp) (space_subdir sp))"

text \<open>
  The loop over the spaces, on one processor. An exception of either call ends the
  script. The result lists what \<open>clean_export_data\<close> gave for each space it was
  called for.
\<close>

fun main_loop ::
  "fetcher \<Rightarrow> space_input list \<Rightarrow> url_processor \<Rightarrow>
     py_error option \<times> url_processor \<times> ((py_error + report) \<times> clean_state) list" where
  "main_loop fetch [] self = (None, self, [])"
| "main_loop fetch (sp # rest) self =
     (case create_page_id_mapping fetch (load_urls self sp) self of
        (Some e, self') \<Rightarrow> (Some e, self', [])
      | (None, self') \<Rightarrow>
          (case clean_export_data self' (space_export sp) of
             (Inl e, st) \<Rightarrow> (Some e, self', [(Inl e, st)])
           | (Inr r, st) \<Rightarrow>
               (case main_loop fetch rest self' of
                  (err, self'', outs) \<Rightarrow> (err, self'', (Inr r, st) # outs))))"

section \<open>extract_content\<close>













section \<open>Notions of the specification\<close>



text \<open>The page id a url was resolved to: the attribute of the element fetched for it.\<close>

definition resolved :: "fetcher \<Rightarrow> id_mapping \<Rightarrow> string \<Rightarrow> bool" where
  "resolved fetch m url =
     (case fetch url of
        Inr (Some attrs) \<Rightarrow> map_of m url = Some (map_of attrs ''data-vp-page-id'')
      | _ \<Rightarrow> False)"

section \<open>A run of the script on two small spaces\<close>

text \<open>
  Two pages, one per space: \<open>B/a/1\<close> with page id 7 and \<open>B/b/2\<close> with page id 8.
  The export of the second space holds a record of the page with id 7.
\<close>

definition example_fetch :: fetcher where
  "example_fetch url =
     (if url = ''B/a/1'' then Inr (Some [(''data-vp-page-id'', ''7'')])
      else if url = ''B/b/2'' then Inr (Some [(''data-vp-page-id'', ''8'')])
      else Inr None)"

definition example_space1 :: space_input where
  "example_space1 =
     \<lparr>space_html = ''href='' @ [dquote] @ ''/a/1'' @ [dquote],
      space_subdir = ''a'',
      space_export =
        [(''r.json'', Parsed (JObj [(''title'', JStr ''R''), (''url'', JStr ''x/7''),
                                    (''paragraphs'', JArr [])]))]\<rparr>"

definition example_space2 :: space_input where
  "example_space2 =
     \<lparr>space_html = ''href='' @ [dquote] @ ''/b/2'' @ [dquote],
      space_subdir = ''b'',
      space_export =
        [(''s.json'', Parsed (JObj [(''title'', JStr ''S''), (''url'', JStr ''y/7''),
                                    (''paragraphs'', JArr [])]))]\<rparr>"

section \<open>Strings and dictionaries: basic facts\<close>

lemma startswith_iff: "startswith s p \<longleftrightarrow> (\<exists>t. s = p @ t)"
proof
  assume "startswith s p"
  then have "s = p @ drop (length p) s"
    unfolding startswith_def by (metis append_take_drop_id)
  then show "\<exists>t. s = p @ t" ..
next
  assume "\<exists>t. s = p @ t"
  then show "startswith s p"
    unfolding startswith_def by auto
qed

lemma endswith_iff: "endswith s p \<longleftrightarrow> (\<exists>t. s = t @ p)"
proof
  assume "endswith s p"
  then have "s = take (length s - length p) s @ p"
    unfolding endswith_def by (metis append_take_drop_id)
  then show "\<exists>t. s = t @ p" ..
next
  assume "\<exists>t. s = t @ p"
  then show "endswith s p"
    unfolding endswith_def by auto
qed

lemma str_in_iff: "str_in v s \<longleftrightarrow> (\<exists>pre post. s = pre @ v @ post)"
proof (induction s)
  case Nil
  show ?case by simp
next
  case (Cons c cs)
  note IH = Cons.IH
  show ?case
  proof
    assume "str_in v (c # cs)"
    then consider "startswith (c # cs) v" | "str_in v cs"
      by auto
    then show "\<exists>pre post. c # cs = pre @ v @ post"
    proof cases
      case 1
      then obtain t where "c # cs = v @ t"
        unfolding startswith_iff by blast
      then have "c # cs = [] @ v @ t" by simp
      then show ?thesis by blast
    next
      case 2
      then obtain pre post where "cs = pre @ v @ post"
        using IH by blast
      then have "c # cs = (c # pre) @ v @ post" by simp
      then show ?thesis by blast
    qed
  next
    assume "\<exists>pre post. c # cs = pre @ v @ post"
    then obtain pre post where eq: "c # cs = pre @ v @ post"
      by blast
    show "str_in v (c # cs)"
    proof (cases pre)
      case Nil
      with eq have "c # cs = v @ post" by simp
      then have "startswith (c # cs) v"
        unfolding startswith_iff by blast
      then show ?thesis by simp
    next
      case (Cons x pre')
      with eq have "cs = pre' @ v @ post" by simp
      then have "str_in v cs"
        using IH by blast
      then show ?thesis by simp
    qed
  qed
qed

lemma str_split_not_Nil: "str_split sep s \<noteq> []"
  by (induction s) (auto split: list.splits)

lemma str_split_no_sep: "sep \<notin> set s \<Longrightarrow> str_split sep s = [s]"
  by (induction s) auto

lemma str_split_single: "str_split sep s = [w] \<Longrightarrow> sep \<notin> set s"
  by (induction s arbitrary: w) (auto split: if_splits list.splits simp: str_split_not_Nil)

lemma last_str_split_Cons:
  "last (str_split sep (c # cs)) =
     (if sep \<in> set cs \<or> c = sep then last (str_split sep cs) else c # cs)"
proof (cases "c = sep")
  case True
  then show ?thesis by (simp add: str_split_not_Nil)
next
  case False
  obtain w ws where split: "str_split sep cs = w # ws"
    using str_split_not_Nil [of sep cs] by (cases "str_split sep cs") auto
  show ?thesis
  proof (cases "sep \<in> set cs")
    case True
    then have "ws \<noteq> []"
      using split str_split_single [of sep cs w] by auto
    then show ?thesis
      using False True split by simp
  next
    case notin: False
    then show ?thesis
      using False by (simp add: str_split_no_sep)
  qed
qed

lemma last_str_split_suffix: "\<exists>pre. s = pre @ last (str_split sep s)"
proof (induction s)
  case Nil
  show ?case by simp
next
  case (Cons c cs)
  then obtain pre where pre: "cs = pre @ last (str_split sep cs)"
    by blast
  show ?case
  proof (cases "sep \<in> set cs \<or> c = sep")
    case True
    then have "last (str_split sep (c # cs)) = last (str_split sep cs)"
      by (simp only: last_str_split_Cons if_True)
    then have "c # cs = (c # pre) @ last (str_split sep (c # cs))"
      using pre by simp
    then show ?thesis by blast
  next
    case False
    then have "last (str_split sep (c # cs)) = c # cs"
      by (simp only: last_str_split_Cons if_False)
    then have "c # cs = [] @ last (str_split sep (c # cs))"
      by simp
    then show ?thesis by blast
  qed
qed

lemma last_str_split_no_sep: "sep \<notin> set (last (str_split sep s))"
proof (induction s)
  case Nil
  show ?case by simp
next
  case (Cons c cs)
  then show ?case
    by (simp only: last_str_split_Cons) (auto split: if_splits)
qed

lemma rstrip_prefix: "\<exists>post. s = rstrip c s @ post"
proof -
  have "rev s = takeWhile (\<lambda>x. x = c) (rev s) @ dropWhile (\<lambda>x. x = c) (rev s)"
    by simp
  then have "s = rev (dropWhile (\<lambda>x. x = c) (rev s)) @ rev (takeWhile (\<lambda>x. x = c) (rev s))"
    by (metis rev_append rev_rev_ident)
  then show ?thesis
    unfolding rstrip_def by blast
qed

lemma py_last_eq: "xs \<noteq> [] \<Longrightarrow> py_last xs = Inr (last xs)"
  by (cases xs rule: rev_cases) (simp_all add: py_last_def)

lemma current_page_id_eq:
  "current_page_id url = Inr (last (str_split CHR ''/'' (rstrip CHR ''/'' url)))"
  unfolding current_page_id_def by (rule py_last_eq) (rule str_split_not_Nil)

lemma page_id_in_url:
  assumes "current_page_id url = Inr pid"
  shows "str_in pid url"
proof -
  from assms have pid: "pid = last (str_split CHR ''/'' (rstrip CHR ''/'' url))"
    by (simp add: current_page_id_eq)
  obtain pre where "rstrip CHR ''/'' url = pre @ pid"
    unfolding pid using last_str_split_suffix by blast
  moreover obtain post where "url = rstrip CHR ''/'' url @ post"
    using rstrip_prefix by blast
  ultimately have "url = pre @ pid @ post"
    by simp
  then show ?thesis
    unfolding str_in_iff by blast
qed

lemma map_of_dict_set: "map_of (dict_set d k v) x = (if x = k then Some v else map_of d x)"
  by (induction d) auto

lemma dict_get_dict_set:
  "dict_get (dict_set d k v) x = (if x = k then Inr v else dict_get d x)"
  by (simp add: dict_get_def map_of_dict_set)

lemma get_str_dict_set_other:
  "x \<noteq> k \<Longrightarrow> get_str (dict_set d k v) x = get_str d x"
  by (simp add: get_str_def dict_get_dict_set)

lemma keys_dict_set: "fst ` set (dict_set d k v) = insert k (fst ` set d)"
proof -
  have "dom (map_of (dict_set d k v)) = insert k (dom (map_of d))"
    by (auto simp: dom_def map_of_dict_set)
  then show ?thesis
    by (simp add: dom_map_of_conv_image_fst)
qed

lemma length_dict_set: "length d \<le> length (dict_set d k v)"
  by (induction d) auto

section \<open>The reconciliation loop: basic facts\<close>

lemma match_iff:
  "list_ex (\<lambda>page_id. page_id = Some pid) (map snd m) \<longleftrightarrow> Some pid \<in> snd ` set m"
  by (auto simp: list_ex_iff)

lemma scan_mapping_first:
  assumes "\<forall>(k, v) \<in> set pre. \<exists>s. v = Some s \<and> \<not> str_in s url"
    and "str_in ident url"
  shows "scan_mapping (pre @ (key, Some ident) # post) url = Inr (Some key)"
  using assms by (induction pre) auto

lemma scan_mapping_entry_not_None:
  assumes "(k, Some pid) \<in> set m" and "str_in pid url"
  shows "scan_mapping m url \<noteq> Inr None"
  using assms by (induction m) (auto split: option.splits if_splits)

lemma scan_mapping_not_None:
  assumes "Some pid \<in> snd ` set m" and "str_in pid url"
  shows "scan_mapping m url \<noteq> Inr None"
proof -
  from assms(1) obtain k where "(k, Some pid) \<in> set m"
    by force
  then show ?thesis
    using assms(2) by (rule scan_mapping_entry_not_None)
qed

lemma scan_mapping_Some:
  "scan_mapping m url = Inr (Some key) \<Longrightarrow> \<exists>v. (key, Some v) \<in> set m \<and> str_in v url"
  by (induction m) (auto split: option.splits if_splits)


lemma emit_record_rewritten:
  assumes "map_of data ''title'' = Some (JStr title)"
    and "map_of data ''paragraphs'' = Some paras"
  shows "emit_record filename
           (dict_set (dict_set data ''internal_url'' (JStr url)) ''url'' (JStr key)) st =
         (if startswith title ''Forward to'' then Inr st
          else Inr (st\<lparr>output_folder := (output_folder st)(filename \<mapsto>
                         [(''title'', JStr title), (''internal_url'', JStr url),
                          (''url'', JStr key), (''paragraphs'', paras)]),
                       good_mappings := good_mappings st @ [JStr key]\<rparr>))"
  using assms by (simp add: emit_record_def get_str_def dict_get_def map_of_dict_set)

lemma process_files_skip:
  assumes "\<not> endswith (fst f) ''.json''"
  shows "process_files m (pre @ f # post) st = process_files m (pre @ post) st"
proof (induction pre arbitrary: st)
  case Nil
  show ?case using assms by (simp add: process_file_def)
next
  case (Cons g pre)
  show ?case
    by (cases "process_file m g st") (simp_all add: Cons.IH)
qed

section \<open>The reconciliation run: further facts\<close>

lemma snd_clean_export_data:
  "snd (clean_export_data self fs) = snd (process_files (mapping self) fs empty_state)"
  by (simp add: clean_export_data_def split: prod.splits option.splits)

lemma rewrite_url_keeps_title:
  assumes "rewrite_url m data url = Inr data'"
  shows "get_str data' ''title'' = get_str data ''title''"
  using assms
  by (auto simp: rewrite_url_def get_str_def dict_get_def map_of_dict_set
      split: sum.splits option.splits)

lemma emit_record_forward:
  assumes "get_str data ''title'' = Inr title" and "startswith title ''Forward to''"
  shows "emit_record filename data st = Inr st"
  using assms by (simp add: emit_record_def)

lemma process_record_forward:
  assumes title: "map_of data ''title'' = Some (JStr title)"
    and fwd: "startswith title ''Forward to''"
    and run: "process_record m filename (JObj data) st = Inr st'"
  shows "output_folder st' = output_folder st"
proof (cases "get_str data ''url''")
  case (Inl e)
  then show ?thesis
    using run by (simp add: process_record_def)
next
  case url: (Inr url)
  have t: "get_str data ''title'' = Inr title"
    using title by (simp add: get_str_def dict_get_def)
  show ?thesis
  proof (cases "Some (last (str_split CHR ''/'' (rstrip CHR ''/'' url))) \<in> snd ` set m")
    case False
    then show ?thesis
      using run url by (auto simp: process_record_def match_iff current_page_id_eq)
  next
    case True
    show ?thesis
    proof (cases "rewrite_url m data url")
      case (Inl e)
      then show ?thesis
        using run url True by (simp add: process_record_def match_iff current_page_id_eq)
    next
      case rw: (Inr data')
      have "get_str data' ''title'' = Inr title"
        using rewrite_url_keeps_title [OF rw] t by simp
      then have "emit_record filename data' st = Inr st"
        using fwd by (rule emit_record_forward)
      then show ?thesis
        using run url True rw by (simp add: process_record_def match_iff current_page_id_eq)
    qed
  qed
qed

lemma emit_record_other_name:
  assumes "emit_record f data st = Inr st'" and "f \<noteq> filename"
  shows "output_folder st' filename = output_folder st filename"
  using assms by (auto simp: emit_record_def split: sum.splits if_splits)

lemma process_record_other_name:
  assumes "process_record m f j st = Inr st'" and "f \<noteq> filename"
  shows "output_folder st' filename = output_folder st filename"
proof (cases j)
  case (JObj data)
  show ?thesis
  proof (cases "get_str data ''url''")
    case (Inl e)
    then show ?thesis
      using assms(1) JObj by (simp add: process_record_def)
  next
    case url: (Inr url)
    show ?thesis
    proof (cases "Some (last (str_split CHR ''/'' (rstrip CHR ''/'' url))) \<in> snd ` set m")
      case False
      then show ?thesis
        using assms(1) JObj url by (auto simp: process_record_def match_iff current_page_id_eq)
    next
      case True
      show ?thesis
      proof (cases "rewrite_url m data url")
        case (Inl e)
        then show ?thesis
          using assms(1) JObj url True
          by (simp add: process_record_def match_iff current_page_id_eq)
      next
        case rw: (Inr data')
        then have "emit_record f data' st = Inr st'"
          using assms(1) JObj url True
          by (simp add: process_record_def match_iff current_page_id_eq)
        then show ?thesis
          using assms(2) by (rule emit_record_other_name)
      qed
    qed
  qed
qed (use assms(1) in \<open>simp_all add: process_record_def\<close>)

lemma process_file_other_name:
  assumes "process_file m f st = Inr st'" and "fst f \<noteq> filename"
  shows "output_folder st' filename = output_folder st filename"
proof (cases "endswith (fst f) ''.json''")
  case False
  then show ?thesis
    using assms(1) by (simp add: process_file_def)
next
  case True
  show ?thesis
  proof (cases "snd f")
    case Unreadable
    then show ?thesis
      using assms(1) True by (simp add: process_file_def)
  next
    case (Parsed j)
    then have "process_record m (fst f) j st = Inr st'"
      using assms(1) True by (simp add: process_file_def)
    then show ?thesis
      using assms(2) by (rule process_record_other_name)
  qed
qed

lemma process_file_forward:
  assumes title: "map_of data ''title'' = Some (JStr title)"
    and fwd: "startswith title ''Forward to''"
    and run: "process_file m (filename, Parsed (JObj data)) st = Inr st'"
  shows "output_folder st' = output_folder st"
proof (cases "endswith filename ''.json''")
  case False
  then show ?thesis
    using run by (simp add: process_file_def)
next
  case True
  then have "process_record m filename (JObj data) st = Inr st'"
    using run by (simp add: process_file_def)
  with title fwd show ?thesis
    by (rule process_record_forward)
qed

lemma process_files_forward:
  assumes title: "map_of data ''title'' = Some (JStr title)"
    and fwd: "startswith title ''Forward to''"
    and only: "\<And>c. (filename, c) \<in> set fs \<Longrightarrow> c = Parsed (JObj data)"
  shows "output_folder (snd (process_files m fs st)) filename = output_folder st filename"
  using only
proof (induction fs arbitrary: st)
  case Nil
  show ?case by simp
next
  case (Cons f fs)
  show ?case
  proof (cases "process_file m f st")
    case (Inl e)
    then show ?thesis by simp
  next
    case step: (Inr st1)
    have kept: "output_folder st1 filename = output_folder st filename"
    proof (cases "fst f = filename")
      case False
      with step show ?thesis
        by (rule process_file_other_name)
    next
      case True
      then have "f = (filename, Parsed (JObj data))"
        using Cons.prems [of "snd f"] by (cases f) auto
      then have "output_folder st1 = output_folder st"
        using process_file_forward [OF title fwd] step by simp
      then show ?thesis by simp
    qed
    have "output_folder (snd (process_files m fs st1)) filename = output_folder st1 filename"
      using Cons.prems by (intro Cons.IH) auto
    then show ?thesis
      using step kept by simp
  qed
qed

lemma map_of_present:
  "k \<in> set (map fst d) \<Longrightarrow> \<exists>v. map_of d k = Some v"
  by (induction d) auto

section \<open>The link extractor: facts\<close>



section \<open>The content extractor: facts\<close>













section \<open>The resolver and the script: facts\<close>

lemma create_page_id_mapping_base_url:
  "base_url (snd (create_page_id_mapping fetch urls self)) = base_url self"
  by (induction urls arbitrary: self) (auto split: sum.splits option.splits)

lemma create_page_id_mapping_keys:
  "fst ` set (mapping self) \<subseteq> fst ` set (mapping (snd (create_page_id_mapping fetch urls self)))"
proof (induction urls arbitrary: self)
  case Nil
  show ?case by simp
next
  case (Cons url urls)
  show ?case
  proof (cases "fetch url")
    case (Inl e)
    then show ?thesis by simp
  next
    case (Inr found)
    show ?thesis
    proof (cases found)
      case None
      with Inr show ?thesis by simp
    next
      case (Some attrs)
      define self1 where
        "self1 = self\<lparr>mapping := dict_set (mapping self) url (map_of attrs ''data-vp-page-id'')\<rparr>"
      have "fst ` set (mapping self) \<subseteq> fst ` set (mapping self1)"
        by (auto simp: self1_def keys_dict_set)
      also have "\<dots> \<subseteq> fst ` set (mapping (snd (create_page_id_mapping fetch urls self1)))"
        by (rule Cons.IH)
      finally show ?thesis
        using Inr Some by (simp add: self1_def)
    qed
  qed
qed

lemma create_page_id_mapping_length:
  "length (mapping self) \<le> length (mapping (snd (create_page_id_mapping fetch urls self)))"
proof (induction urls arbitrary: self)
  case Nil
  show ?case by simp
next
  case (Cons url urls)
  show ?case
  proof (cases "fetch url")
    case (Inl e)
    then show ?thesis by simp
  next
    case (Inr found)
    show ?thesis
    proof (cases found)
      case None
      with Inr show ?thesis by simp
    next
      case (Some attrs)
      define self1 where
        "self1 = self\<lparr>mapping := dict_set (mapping self) url (map_of attrs ''data-vp-page-id'')\<rparr>"
      have "length (mapping self) \<le> length (mapping self1)"
        by (simp add: self1_def length_dict_set)
      also have "\<dots> \<le> length (mapping (snd (create_page_id_mapping fetch urls self1)))"
        by (rule Cons.IH)
      finally show ?thesis
        using Inr Some by (simp add: self1_def)
    qed
  qed
qed

lemma create_page_id_mapping_other:
  "k \<notin> set urls \<Longrightarrow>
     map_of (mapping (snd (create_page_id_mapping fetch urls self))) k = map_of (mapping self) k"
  by (induction urls arbitrary: self)
    (auto split: sum.splits option.splits simp: map_of_dict_set)

lemma create_page_id_mapping_new:
  "create_page_id_mapping fetch urls self = (None, self') \<Longrightarrow> url \<in> set urls \<Longrightarrow>
     resolved fetch (mapping self') url"
proof (induction urls arbitrary: self)
  case Nil
  then show ?case by simp
next
  case (Cons u us)
  from Cons.prems(1) obtain attrs where f: "fetch u = Inr (Some attrs)"
    by (auto split: sum.splits option.splits)
  define self1 where
    "self1 = self\<lparr>mapping := dict_set (mapping self) u (map_of attrs ''data-vp-page-id'')\<rparr>"
  have run: "create_page_id_mapping fetch us self1 = (None, self')"
    using Cons.prems(1) f by (simp add: self1_def)
  show ?case
  proof (cases "url \<in> set us")
    case True
    with run show ?thesis by (rule Cons.IH)
  next
    case False
    then have u: "url = u"
      using Cons.prems(2) by simp
    have "map_of (mapping self') u = map_of (mapping self1) u"
      using create_page_id_mapping_other [of u us fetch self1] run False u by simp
    then show ?thesis
      using f u by (simp add: resolved_def self1_def map_of_dict_set)
  qed
qed

lemma create_page_id_mapping_old:
  assumes "create_page_id_mapping fetch urls self = (None, self')"
    and "resolved fetch (mapping self) k"
  shows "resolved fetch (mapping self') k"
proof (cases "k \<in> set urls")
  case True
  with assms(1) show ?thesis by (rule create_page_id_mapping_new)
next
  case False
  then have "map_of (mapping self') k = map_of (mapping self) k"
    using create_page_id_mapping_other [of k urls fetch self] assms(1) by simp
  then show ?thesis
    using assms(2) by (auto simp: resolved_def split: sum.splits option.splits)
qed

lemma load_urls_base: "base_url a = base_url b \<Longrightarrow> load_urls a sp = load_urls b sp"
  by (simp add: load_urls_def find_links_in_html_def extract_href_urls_def)

lemma resolved_match:
  assumes "resolved fetch m url" and "fetch url = Inr (Some attrs)"
    and "map_of attrs ''data-vp-page-id'' = Some pid"
  shows "Some pid \<in> snd ` set m"
proof -
  have "map_of m url = Some (Some pid)"
    using assms by (simp add: resolved_def)
  then have "(url, Some pid) \<in> set m"
    by (rule map_of_SomeD)
  then show ?thesis by force
qed

lemma main_loop_accumulates:
  assumes "main_loop fetch (pre @ sp # post) self = (err, self_end, outs)"
    and "length pre < length outs"
  shows "\<exists>self_sp. outs ! length pre = clean_export_data self_sp (space_export sp)
      \<and> base_url self_sp = base_url self
      \<and> fst ` set (mapping self) \<subseteq> fst ` set (mapping self_sp)
      \<and> (\<forall>k. resolved fetch (mapping self) k \<longrightarrow> resolved fetch (mapping self_sp) k)
      \<and> (\<forall>s \<in> set pre \<union> {sp}. \<forall>url \<in> set (load_urls self s).
            resolved fetch (mapping self_sp) url)"
  using assms
proof (induction pre arbitrary: self err self_end outs)
  case Nil
  obtain e1 self1 where c: "create_page_id_mapping fetch (load_urls self sp) self = (e1, self1)"
    by (cases "create_page_id_mapping fetch (load_urls self sp) self")
  have e1: "e1 = None"
    using Nil.prems c by (cases e1) auto
  obtain r st where cl: "clean_export_data self1 (space_export sp) = (r, st)"
    by (cases "clean_export_data self1 (space_export sp)")
  have out: "outs ! 0 = (r, st)"
    using Nil.prems c e1 cl by (cases r) (auto split: prod.splits)
  have self1: "self1 = snd (create_page_id_mapping fetch (load_urls self sp) self)"
    using c by simp
  have "outs ! length ([] :: space_input list) = clean_export_data self1 (space_export sp)"
    using out cl by simp
  moreover have "base_url self1 = base_url self"
    unfolding self1 by (rule create_page_id_mapping_base_url)
  moreover have "fst ` set (mapping self) \<subseteq> fst ` set (mapping self1)"
    unfolding self1 by (rule create_page_id_mapping_keys)
  moreover have "\<forall>k. resolved fetch (mapping self) k \<longrightarrow> resolved fetch (mapping self1) k"
    using create_page_id_mapping_old c e1 by blast
  moreover have "\<forall>s \<in> set [] \<union> {sp}. \<forall>url \<in> set (load_urls self s).
      resolved fetch (mapping self1) url"
    using create_page_id_mapping_new c e1 by auto
  ultimately show ?case by blast
next
  case (Cons s pre)
  obtain e1 self1 where c: "create_page_id_mapping fetch (load_urls self s) self = (e1, self1)"
    by (cases "create_page_id_mapping fetch (load_urls self s) self")
  have e1: "e1 = None"
    using Cons.prems c by (cases e1) auto
  obtain r st where cl: "clean_export_data self1 (space_export s) = (r, st)"
    by (cases "clean_export_data self1 (space_export s)")
  obtain err' self'' outs' where
    rest: "main_loop fetch (pre @ sp # post) self1 = (err', self'', outs')"
    by (cases "main_loop fetch (pre @ sp # post) self1")
  have outs: "outs = (r, st) # outs'"
    using Cons.prems c e1 cl rest by (cases r) auto
  have len: "length pre < length outs'"
    using Cons.prems(2) outs by simp
  from Cons.IH [OF rest len] obtain self_sp where
    a: "outs' ! length pre = clean_export_data self_sp (space_export sp)"
    and b: "base_url self_sp = base_url self1"
    and k: "fst ` set (mapping self1) \<subseteq> fst ` set (mapping self_sp)"
    and o: "\<forall>k. resolved fetch (mapping self1) k \<longrightarrow> resolved fetch (mapping self_sp) k"
    and n: "\<forall>s \<in> set pre \<union> {sp}. \<forall>url \<in> set (load_urls self1 s).
        resolved fetch (mapping self_sp) url"
    by blast
  have self1: "self1 = snd (create_page_id_mapping fetch (load_urls self s) self)"
    using c by simp
  have base1: "base_url self1 = base_url self"
    unfolding self1 by (rule create_page_id_mapping_base_url)
  have keys1: "fst ` set (mapping self) \<subseteq> fst ` set (mapping self1)"
    unfolding self1 by (rule create_page_id_mapping_keys)
  have "outs ! length (s # pre) = clean_export_data self_sp (space_export sp)"
    using a outs by simp
  moreover have "base_url self_sp = base_url self"
    using b base1 by simp
  moreover have "fst ` set (mapping self) \<subseteq> fst ` set (mapping self_sp)"
    using keys1 k by (rule subset_trans)
  moreover have "\<forall>k. resolved fetch (mapping self) k \<longrightarrow> resolved fetch (mapping self_sp) k"
    using create_page_id_mapping_old c e1 o by blast
  moreover have "\<forall>s' \<in> set (s # pre) \<union> {sp}. \<forall>url \<in> set (load_urls self s').
      resolved fetch (mapping self_sp) url"
  proof (intro ballI)
    fix s' url
    assume s': "s' \<in> set (s # pre) \<union> {sp}" and url: "url \<in> set (load_urls self s')"
    show "resolved fetch (mapping self_sp) url"
    proof (cases "s' \<in> set pre \<union> {sp}")
      case True
      moreover have "load_urls self1 s' = load_urls self s'"
        using base1 by (rule load_urls_base)
      ultimately show ?thesis
        using n url by auto
    next
      case False
      then have "s' = s"
        using s' by auto
      then have "resolved fetch (mapping self1) url"
        using create_page_id_mapping_new c e1 url by blast
      then show ?thesis
        using o by blast
    qed
  qed
  ultimately show ?case by blast
qed

lemma example_urls: "load_urls (init_processor ''B'') example_space1 = [''B/a/1'']"
  by (simp add: load_urls_def init_processor_def example_space1_def find_links_in_html_def
      save_urls_to_file_def extract_href_urls_def findall_href.simps href_open_def dquote_def
      startswith_def splitlines_def is_linebreak_def)

lemma example_run:
  "main_loop example_fetch ([example_space1] @ example_space2 # []) (init_processor ''B'') =
     (None,
      \<lparr>base_url = ''B'', mapping = [(''B/a/1'', Some ''7''), (''B/b/2'', Some ''8'')]\<rparr>,
      [(Inr \<lparr>succeeded = 1, total = 1, sample_good = [JStr ''B/a/1''], sample_failed = []\<rparr>,
        \<lparr>output_folder = [''r.json'' \<mapsto>
           [(''title'', JStr ''R''), (''internal_url'', JStr ''x/7''),
            (''url'', JStr ''B/a/1''), (''paragraphs'', JArr [])]],
         good_mappings = [JStr ''B/a/1''], failed_mappings = []\<rparr>),
       (Inr \<lparr>succeeded = 1, total = 1, sample_good = [JStr ''B/a/1''], sample_failed = []\<rparr>,
        \<lparr>output_folder = [''s.json'' \<mapsto>
           [(''title'', JStr ''S''), (''internal_url'', JStr ''y/7''),
            (''url'', JStr ''B/a/1''), (''paragraphs'', JArr [])]],
         good_mappings = [JStr ''B/a/1''], failed_mappings = []\<rparr>)])"
  by (simp add: load_urls_def init_processor_def example_space1_def example_space2_def
      example_fetch_def find_links_in_html_def save_urls_to_file_def extract_href_urls_def
      findall_href.simps href_open_def dquote_def startswith_def splitlines_def
      is_linebreak_def clean_export_data_def process_file_def endswith_def
      process_record_def get_str_def dict_get_def current_page_id_def py_last_def rstrip_def
      rewrite_url_def emit_record_def make_report_def empty_state_def)

section \<open>The claims\<close>

text \<open>
  C1. For a \<open>.json\<close> export record whose derived page id equals some value of the
  identifier mapping, the mapping is scanned in insertion order; at the first entry
  whose identifier is a substring of the record's url, \<open>internal_url\<close> becomes the
  original url and \<open>url\<close> becomes that entry's key. The record is then written
  with the four fields title, internal_url, url and paragraphs, and the key is
  appended to the succeeded list (nothing is written for a "Forward to" title).
  The identifiers ahead of the hit are strings, as in the specification's data model.
\<close>

theorem first_substring_entry_rewrites_url:
  assumes json: "endswith filename ''.json''"
    and url: "map_of data ''url'' = Some (JStr url)"
    and title: "map_of data ''title'' = Some (JStr title)"
    and paras: "map_of data ''paragraphs'' = Some paras"
    and pid: "current_page_id url = Inr pid"
    and match: "Some pid \<in> snd ` set m"
    and m: "m = pre @ (key, Some ident) # post"
    and pre: "\<forall>(k, v) \<in> set pre. \<exists>s. v = Some s \<and> \<not> str_in s url"
    and hit: "str_in ident url"
  shows "rewrite_url m data url =
           Inr (dict_set (dict_set data ''internal_url'' (JStr url)) ''url'' (JStr key))
       \<and> process_file m (filename, Parsed (JObj data)) st =
           (if startswith title ''Forward to'' then Inr st
            else Inr (st\<lparr>output_folder := (output_folder st)(filename \<mapsto>
                           [(''title'', JStr title), (''internal_url'', JStr url),
                            (''url'', JStr key), (''paragraphs'', paras)]),
                         good_mappings := good_mappings st @ [JStr key]\<rparr>))"
proof -
  have scan: "scan_mapping m url = Inr (Some key)"
    unfolding m using pre hit by (rule scan_mapping_first)
  then have rw: "rewrite_url m data url =
      Inr (dict_set (dict_set data ''internal_url'' (JStr url)) ''url'' (JStr key))"
    by (simp add: rewrite_url_def)
  have "get_str data ''url'' = Inr url"
    using url by (simp add: get_str_def dict_get_def)
  then have "process_record m filename (JObj data) st =
      emit_record filename
        (dict_set (dict_set data ''internal_url'' (JStr url)) ''url'' (JStr key)) st"
    using pid match rw by (simp add: process_record_def match_iff)
  then have "process_file m (filename, Parsed (JObj data)) st =
      emit_record filename
        (dict_set (dict_set data ''internal_url'' (JStr url)) ''url'' (JStr key)) st"
    using json by (simp add: process_file_def)
  then show ?thesis
    using rw emit_record_rewritten [OF title paras] by simp
qed

theorem first_substring_entry_rewrites_url_witness:
  "process_file
     [(''https://kb/x/a'', Some ''123''), (''https://kb/x/b'', Some ''456'')]
     (''page_a.json'',
      Parsed (JObj [(''title'', JStr ''Page A''), (''url'', JStr ''https://old/path/123''),
                    (''paragraphs'', JArr [])]))
     empty_state =
   Inr \<lparr>output_folder = [''page_a.json'' \<mapsto>
          [(''title'', JStr ''Page A''), (''internal_url'', JStr ''https://old/path/123''),
           (''url'', JStr ''https://kb/x/a''), (''paragraphs'', JArr [])]],
        good_mappings = [JStr ''https://kb/x/a''],
        failed_mappings = []\<rparr>"
proof -
  have pid: "current_page_id ''https://old/path/123'' = Inr ''123''"
    by (simp add: current_page_id_def py_last_def rstrip_def)
  have hit: "str_in ''123'' ''https://old/path/123''"
    by (simp add: startswith_def)
  have pre: "\<forall>(k, v) \<in> set ([] :: id_mapping). \<exists>s. v = Some s \<and> \<not> str_in s ''https://old/path/123''"
    by simp
  have json: "endswith ''page_a.json'' ''.json''"
    by (simp add: endswith_def)
  show ?thesis
    using first_substring_entry_rewrites_url
      [where filename = "''page_a.json''" and url = "''https://old/path/123''"
         and data = "[(''title'', JStr ''Page A''), (''url'', JStr ''https://old/path/123''),
                      (''paragraphs'', JArr [])]"
         and title = "''Page A''" and paras = "JArr []" and pid = "''123''"
         and m = "[(''https://kb/x/a'', Some ''123''), (''https://kb/x/b'', Some ''456'')]"
         and pre = "[]" and key = "''https://kb/x/a''" and ident = "''123''"
         and post = "[(''https://kb/x/b'', Some ''456'')]" and st = empty_state,
       OF json _ _ _ pid _ _ pre hit]
    by (simp add: startswith_def empty_state_def)
qed






text \<open>
  C4 fails on a record that is itself the output of a run: under the mapping of
  \<open>https://kb/x/123\<close> to page id 123, the cleaned record with url
  \<open>https://kb/x/123\<close> and internal_url \<open>https://old/path/123\<close> is written again with
  its internal_url overwritten by its url.
\<close>

theorem cleaned_record_internal_url_overwritten:
  "process_file [(''https://kb/x/123'', Some ''123'')]
     (''page_a.json'',
      Parsed (JObj [(''title'', JStr ''Page A''), (''internal_url'', JStr ''https://old/path/123''),
                    (''url'', JStr ''https://kb/x/123''), (''paragraphs'', JArr [])]))
     empty_state =
   Inr \<lparr>output_folder = [''page_a.json'' \<mapsto>
          [(''title'', JStr ''Page A''), (''internal_url'', JStr ''https://kb/x/123''),
           (''url'', JStr ''https://kb/x/123''), (''paragraphs'', JArr [])]],
        good_mappings = [JStr ''https://kb/x/123''],
        failed_mappings = []\<rparr>
   \<and> ''https://kb/x/123'' \<in> fst ` set [(''https://kb/x/123'', Some ''123'')]
   \<and> JStr ''https://kb/x/123'' \<noteq> JStr ''https://old/path/123''"
  by (simp add: process_file_def endswith_def process_record_def get_str_def dict_get_def
      current_page_id_def py_last_def rstrip_def rewrite_url_def emit_record_def
      startswith_def empty_state_def)

text \<open>
  C4, as the code has it. Take a record that carries exactly the fields title,
  internal_url, url and paragraphs and whose url is a key of the mapping. When the
  page id derived from its url equals no value of the mapping, nothing is written
  and the url is appended to the failed list. When it equals some value, whatever is
  written for the record has the record's url as internal_url, and as url the key of
  an entry whose identifier occurs in the record's url.
\<close>

theorem cleaned_record_failure_or_overwrite:
  assumes json: "endswith filename ''.json''"
    and fields: "set (map fst data) = {''title'', ''internal_url'', ''url'', ''paragraphs''}"
    and url: "map_of data ''url'' = Some (JStr url)"
    and key: "url \<in> fst ` set m"
    and pid: "current_page_id url = Inr pid"
  shows "(Some pid \<notin> snd ` set m \<longrightarrow>
            process_file m (filename, Parsed (JObj data)) st =
              Inr (st\<lparr>failed_mappings := failed_mappings st @ [JStr url]\<rparr>))
       \<and> (Some pid \<in> snd ` set m \<longrightarrow>
            (\<forall>st'. process_file m (filename, Parsed (JObj data)) st = Inr st' \<longrightarrow>
               st' = st
               \<or> (\<exists>key' v title paras. (key', Some v) \<in> set m \<and> str_in v url
                    \<and> st' = st\<lparr>output_folder := (output_folder st)(filename \<mapsto>
                                   [(''title'', JStr title), (''internal_url'', JStr url),
                                    (''url'', JStr key'), (''paragraphs'', paras)]),
                                 good_mappings := good_mappings st @ [JStr key']\<rparr>)))"
proof -
  have gurl: "get_str data ''url'' = Inr url"
    using url by (simp add: get_str_def dict_get_def)
  have pf: "process_file m (filename, Parsed (JObj data)) st =
      process_record m filename (JObj data) st"
    using json by (simp add: process_file_def)
  have fail: "process_file m (filename, Parsed (JObj data)) st =
      Inr (st\<lparr>failed_mappings := failed_mappings st @ [JStr url]\<rparr>)"
    if "Some pid \<notin> snd ` set m"
    using that gurl pid by (simp add: pf process_record_def match_iff)
  have over: "st' = st
      \<or> (\<exists>key' v title paras. (key', Some v) \<in> set m \<and> str_in v url
           \<and> st' = st\<lparr>output_folder := (output_folder st)(filename \<mapsto>
                          [(''title'', JStr title), (''internal_url'', JStr url),
                           (''url'', JStr key'), (''paragraphs'', paras)]),
                        good_mappings := good_mappings st @ [JStr key']\<rparr>)"
    if match: "Some pid \<in> snd ` set m"
      and run: "process_file m (filename, Parsed (JObj data)) st = Inr st'" for st'
  proof -
    obtain paras where paras: "map_of data ''paragraphs'' = Some paras"
      using map_of_present [of "''paragraphs''" data] fields by auto
    have sub: "str_in pid url"
      using pid by (rule page_id_in_url)
    have notNone: "scan_mapping m url \<noteq> Inr None"
      using match sub by (rule scan_mapping_not_None)
    show ?thesis
    proof (cases "scan_mapping m url")
      case (Inl e)
      then show ?thesis
        using run gurl pid match by (simp add: pf process_record_def match_iff rewrite_url_def)
    next
      case (Inr hit)
      then obtain key' where scan: "scan_mapping m url = Inr (Some key')"
        using notNone by (cases hit) auto
      then obtain v where v: "(key', Some v) \<in> set m" "str_in v url"
        using scan_mapping_Some by blast
      define data' where
        "data' = dict_set (dict_set data ''internal_url'' (JStr url)) ''url'' (JStr key')"
      have emit: "emit_record filename data' st = Inr st'"
        using run gurl pid match scan
        by (simp add: pf process_record_def match_iff rewrite_url_def data'_def)
      have t': "get_str data' ''title'' = get_str data ''title''"
        by (simp add: data'_def get_str_def dict_get_def map_of_dict_set)
      show ?thesis
      proof (cases "get_str data ''title''")
        case (Inl e)
        then show ?thesis
          using emit t' by (simp add: emit_record_def)
      next
        case (Inr title)
        then have title: "map_of data ''title'' = Some (JStr title)"
          by (auto simp: get_str_def dict_get_def split: option.splits json.splits)
        show ?thesis
          using emit emit_record_rewritten [OF title paras, of filename url key' st] v
          unfolding data'_def by (auto split: if_splits)
      qed
    qed
  qed
  show ?thesis
    using fail over by blast
qed

theorem cleaned_record_failure_or_overwrite_witness:
  "process_file [(''https://kb/x/a'', Some ''123''), (''https://kb/x/b'', Some ''456'')]
     (''page_a.json'',
      Parsed (JObj [(''title'', JStr ''Page A''), (''internal_url'', JStr ''https://old/path/123''),
                    (''url'', JStr ''https://kb/x/a''), (''paragraphs'', JArr [])]))
     empty_state =
   Inr (empty_state\<lparr>failed_mappings := failed_mappings empty_state @ [JStr ''https://kb/x/a'']\<rparr>)"
proof -
  have pid: "current_page_id ''https://kb/x/a'' = Inr ''a''"
    by (simp add: current_page_id_def py_last_def rstrip_def)
  have json: "endswith ''page_a.json'' ''.json''"
    by (simp add: endswith_def)
  show ?thesis
    using cleaned_record_failure_or_overwrite
      [where filename = "''page_a.json''" and url = "''https://kb/x/a''" and pid = "''a''"
         and data = "[(''title'', JStr ''Page A''), (''internal_url'', JStr ''https://old/path/123''),
                    (''url'', JStr ''https://kb/x/a''), (''paragraphs'', JArr [])]"
         and m = "[(''https://kb/x/a'', Some ''123''), (''https://kb/x/b'', Some ''456'')]"
         and st = empty_state,
       OF json _ _ _ pid]
    by simp
qed

text \<open>
  C5. With no export record in the input folder both lists stay empty, and the
  ratio of the report divides by zero: the call ends in \<open>ZeroDivisionError\<close>.
\<close>

theorem zero_records_division_error:
  "clean_export_data self [] = (Inl ZeroDivisionError, empty_state)
   \<and> good_mappings (snd (clean_export_data self [])) = []
   \<and> failed_mappings (snd (clean_export_data self [])) = []"
  by (simp add: clean_export_data_def make_report_def empty_state_def)

text \<open>
  C6. A record whose title starts with "Forward to" is never written to the output
  folder: the pass over it leaves the folder as it is, whether or not its page id
  matched, and after the whole run the folder holds no file of its name.
\<close>

theorem forward_to_never_written:
  assumes names: "distinct (map fst input_folder)"
    and mem: "(filename, Parsed (JObj data)) \<in> set input_folder"
    and title: "map_of data ''title'' = Some (JStr title)"
    and fwd: "startswith title ''Forward to''"
  shows "output_folder (snd (clean_export_data self input_folder)) filename = None
       \<and> (\<forall>m st st'. process_file m (filename, Parsed (JObj data)) st = Inr st'
            \<longrightarrow> output_folder st' = output_folder st)"
proof -
  have only: "c = Parsed (JObj data)" if "(filename, c) \<in> set input_folder" for c
    using names that mem by (rule eq_key_imp_eq_value)
  have "output_folder (snd (process_files (mapping self) input_folder empty_state)) filename =
      output_folder empty_state filename"
    using title fwd only by (rule process_files_forward)
  then have "output_folder (snd (clean_export_data self input_folder)) filename = None"
    by (simp add: snd_clean_export_data empty_state_def)
  then show ?thesis
    using process_file_forward [OF title fwd] by blast
qed

theorem forward_to_never_written_witness:
  "output_folder
     (snd (clean_export_data
        \<lparr>base_url = ''https://kb'', mapping = [(''https://kb/x/a'', Some ''123'')]\<rparr>
        [(''fwd.json'',
          Parsed (JObj [(''title'', JStr ''Forward to Page A''),
                        (''url'', JStr ''https://old/path/123''),
                        (''paragraphs'', JArr [])])),
         (''page_a.json'',
          Parsed (JObj [(''title'', JStr ''Page A''),
                        (''url'', JStr ''https://old/path/123''),
                        (''paragraphs'', JArr [])]))]))
     ''fwd.json'' = None"
proof -
  have fwd: "startswith ''Forward to Page A'' ''Forward to''"
    by (simp add: startswith_def)
  show ?thesis
    using forward_to_never_written
      [where filename = "''fwd.json''" and title = "''Forward to Page A''"
         and data = "[(''title'', JStr ''Forward to Page A''),
                      (''url'', JStr ''https://old/path/123''),
                      (''paragraphs'', JArr [])]"
         and input_folder = "[(''fwd.json'',
            Parsed (JObj [(''title'', JStr ''Forward to Page A''),
                          (''url'', JStr ''https://old/path/123''),
                          (''paragraphs'', JArr [])])),
           (''page_a.json'',
            Parsed (JObj [(''title'', JStr ''Page A''),
                          (''url'', JStr ''https://old/path/123''),
                          (''paragraphs'', JArr [])]))]"
         and self = "\<lparr>base_url = ''https://kb'', mapping = [(''https://kb/x/a'', Some ''123'')]\<rparr>",
       OF _ _ _ fwd]
    by simp
qed



text \<open>
  C8. A file whose name does not end in \<open>.json\<close> is skipped: the pass leaves the
  state (output folder, succeeded and failed lists) as it is and raises nothing,
  whatever the file holds, and the whole run gives the same result, report
  included, as on the folder without that file.
\<close>

theorem non_json_file_is_skipped:
  assumes "\<not> endswith filename ''.json''"
  shows "process_file m (filename, content) st = Inr st
       \<and> clean_export_data self (pre @ (filename, content) # post) =
           clean_export_data self (pre @ post)"
  using assms process_files_skip [of "(filename, content)" "mapping self" pre post empty_state]
  by (simp add: process_file_def clean_export_data_def)

theorem non_json_file_is_skipped_witness:
  "\<not> endswith ''notes.txt'' ''.json''
   \<and> process_file [(''https://kb/x/a'', Some ''123'')] (''notes.txt'', Unreadable) empty_state =
       Inr empty_state
   \<and> clean_export_data \<lparr>base_url = ''https://kb'', mapping = [(''https://kb/x/a'', Some ''123'')]\<rparr>
       ([] @ (''notes.txt'', Unreadable) # [(''z.json'', Parsed (JObj [(''url'', JStr ''u/9'')]))]) =
     clean_export_data \<lparr>base_url = ''https://kb'', mapping = [(''https://kb/x/a'', Some ''123'')]\<rparr>
       ([] @ [(''z.json'', Parsed (JObj [(''url'', JStr ''u/9'')]))])"
proof -
  have other: "\<not> endswith ''notes.txt'' ''.json''"
    by (simp add: endswith_def)
  show ?thesis
    using other non_json_file_is_skipped [OF other] by blast
qed



text \<open>
  C10. \<open>create_page_id_mapping\<close> only adds to the mapping: every key stays, the
  entries of urls it does not fetch keep their values, the mapping never gets
  shorter. In the script, the processor that cleans a space has resolved the urls of
  that space and of every space before it: the page ids of the earlier spaces are
  among the values its records are matched against.
\<close>

theorem mapping_only_grows:
  "fst ` set (mapping self) \<subseteq> fst ` set (mapping (snd (create_page_id_mapping fetch urls self)))
   \<and> length (mapping self) \<le> length (mapping (snd (create_page_id_mapping fetch urls self)))
   \<and> (\<forall>k. k \<notin> set urls \<longrightarrow>
         map_of (mapping (snd (create_page_id_mapping fetch urls self))) k = map_of (mapping self) k)
   \<and> (main_loop fetch (pre @ sp # post) self = (err, self_end, outs) \<and> length pre < length outs \<longrightarrow>
        (\<exists>self_sp. outs ! length pre = clean_export_data self_sp (space_export sp)
           \<and> fst ` set (mapping self) \<subseteq> fst ` set (mapping self_sp)
           \<and> (\<forall>s \<in> set pre \<union> {sp}. \<forall>url \<in> set (load_urls self s).
                 resolved fetch (mapping self_sp) url
                 \<and> (\<forall>attrs pid. fetch url = Inr (Some attrs)
                        \<and> map_of attrs ''data-vp-page-id'' = Some pid
                      \<longrightarrow> Some pid \<in> snd ` set (mapping self_sp)))))"
proof -
  have "\<exists>self_sp. outs ! length pre = clean_export_data self_sp (space_export sp)
           \<and> fst ` set (mapping self) \<subseteq> fst ` set (mapping self_sp)
           \<and> (\<forall>s \<in> set pre \<union> {sp}. \<forall>url \<in> set (load_urls self s).
                 resolved fetch (mapping self_sp) url
                 \<and> (\<forall>attrs pid. fetch url = Inr (Some attrs)
                        \<and> map_of attrs ''data-vp-page-id'' = Some pid
                      \<longrightarrow> Some pid \<in> snd ` set (mapping self_sp)))"
    if run: "main_loop fetch (pre @ sp # post) self = (err, self_end, outs)"
      and len: "length pre < length outs"
  proof -
    from main_loop_accumulates [OF run len] obtain self_sp where
      a: "outs ! length pre = clean_export_data self_sp (space_export sp)"
      and k: "fst ` set (mapping self) \<subseteq> fst ` set (mapping self_sp)"
      and n: "\<forall>s \<in> set pre \<union> {sp}. \<forall>url \<in> set (load_urls self s).
          resolved fetch (mapping self_sp) url"
      by blast
    have "\<forall>s \<in> set pre \<union> {sp}. \<forall>url \<in> set (load_urls self s).
        resolved fetch (mapping self_sp) url
        \<and> (\<forall>attrs pid. fetch url = Inr (Some attrs)
               \<and> map_of attrs ''data-vp-page-id'' = Some pid
             \<longrightarrow> Some pid \<in> snd ` set (mapping self_sp))"
      using n resolved_match by blast
    with a k show ?thesis by blast
  qed
  then show ?thesis
    using create_page_id_mapping_keys [of self fetch urls]
      create_page_id_mapping_length [of self fetch urls]
      create_page_id_mapping_other [of _ urls fetch self]
    by blast
qed

theorem mapping_only_grows_witness:
  "\<exists>self_sp.
     snd (snd (main_loop example_fetch ([example_space1] @ example_space2 # [])
       (init_processor ''B''))) ! 1 =
       clean_export_data self_sp (space_export example_space2)
     \<and> Some ''7'' \<in> snd ` set (mapping self_sp)
     \<and> output_folder (snd (clean_export_data self_sp (space_export example_space2))) ''s.json'' =
         Some [(''title'', JStr ''S''), (''internal_url'', JStr ''y/7''),
               (''url'', JStr ''B/a/1''), (''paragraphs'', JArr [])]"
proof -
  define res where
    "res = main_loop example_fetch ([example_space1] @ example_space2 # []) (init_processor ''B'')"
  note run = example_run [folded res_def]
  have prem: "main_loop example_fetch ([example_space1] @ example_space2 # [])
        (init_processor ''B'') = (fst res, fst (snd res), snd (snd res))
      \<and> length [example_space1] < length (snd (snd res))"
    unfolding res_def [symmetric] by (simp add: run)
  from mapping_only_grows
      [where fetch = example_fetch and pre = "[example_space1]" and sp = example_space2
         and post = "[]" and self = "init_processor ''B''" and urls = "[]"
         and err = "fst res" and self_end = "fst (snd res)" and outs = "snd (snd res)",
       THEN conjunct2, THEN conjunct2, THEN conjunct2, THEN mp, OF prem]
  obtain self_sp where
    a: "snd (snd res) ! length [example_space1] =
        clean_export_data self_sp (space_export example_space2)"
    and n: "\<forall>s \<in> set [example_space1] \<union> {example_space2}.
            \<forall>url \<in> set (load_urls (init_processor ''B'') s).
              resolved example_fetch (mapping self_sp) url
              \<and> (\<forall>attrs pid. example_fetch url = Inr (Some attrs)
                     \<and> map_of attrs ''data-vp-page-id'' = Some pid
                   \<longrightarrow> Some pid \<in> snd ` set (mapping self_sp))"
    by blast
  have "example_fetch ''B/a/1'' = Inr (Some [(''data-vp-page-id'', ''7'')])
      \<and> map_of [(''data-vp-page-id'', ''7'')] ''data-vp-page-id'' = Some ''7''"
    by (simp add: example_fetch_def)
  moreover have "''B/a/1'' \<in> set (load_urls (init_processor ''B'') example_space1)"
    by (simp add: example_urls)
  ultimately have seven: "Some ''7'' \<in> snd ` set (mapping self_sp)"
    using n by (metis UnI1 list.set_intros(1))
  have out: "clean_export_data self_sp (space_export example_space2) = snd (snd res) ! 1"
    using a by simp
  show ?thesis
    unfolding res_def [symmetric]
  proof (intro exI conjI)
    show "snd (snd res) ! 1 = clean_export_data self_sp (space_export example_space2)"
      using a by simp
    show "Some ''7'' \<in> snd ` set (mapping self_sp)"
      by (rule seven)
    show "output_folder (snd (clean_export_data self_sp (space_export example_space2))) ''s.json'' =
         Some [(''title'', JStr ''S''), (''internal_url'', JStr ''y/7''),
               (''url'', JStr ''B/a/1''), (''paragraphs'', JArr [])]"
      unfolding out by (simp add: run)
  qed
qed

end
